theory Spec2Isabelle
  imports Main
begin

section \<open>Data of the synchronisation core\<close>

text \<open>
  The session orchestrator \<open>SyncedDB\<close> and the exclusive variant
  \<open>createSyncedDB_Exclusive\<close> live in one TypeScript module. Its collaborators
  (the database handle \<open>DB\<close>, the \<open>Transport\<close>, \<open>InboundStream\<close> and
  \<open>OutboundStream\<close>) are imported from sibling modules. What the module does to
  them is a sequence of method calls and field assignments, so a session carries
  the list of calls it has issued, in order.
\<close>

type_synonym site_id = string
type_synonym version = nat
type_synonym frontier = "site_id \<Rightarrow> version"
type_synonym change = "version \<times> string"

datatype error = GetLastSeensFailed | GetSchemaFailed | ApplyRejected

text \<open>\<open>tags.AnnouncePresence\<close> of the common package; the module uses no other tag.\<close>

datatype tag = AnnouncePresence | OtherTag

record presence =
  tag :: tag
  lastSeens :: frontier
  schemaName :: string
  schemaVersion :: version
  sender :: site_id

record batch =
  b_sender :: site_id
  b_changes :: "change list"

text \<open>
  Modelled from the spec: the interface of the database handle (module \<open>DB\<close>, not
  among the sources) as \<open>SyncedDB\<close> consumes it: the site id and the outcome of
  the two asynchronous queries. A rejected promise is the \<open>Inl\<close> branch.
\<close>

record DB =
  siteid :: site_id
  getLastSeens :: "error + frontier"
  getSchemaNameAndVersion :: "error + (string \<times> version)"

text \<open>The bound stream methods that are stored in the transport's callback slots.\<close>

datatype handler = ReceiveChanges | StartStreaming | ResetStream

text \<open>
  Modelled from the spec: the interface of the transport (module
  \<open>transport/Transport\<close>, not among the sources): three mutable callback slots.
  Its operations \<open>announcePresence\<close> and \<open>close\<close> appear as calls below.
\<close>

record Transport =
  onChangesReceived :: "handler option"
  onStartStreaming :: "handler option"
  onResetStream :: "handler option"

text \<open>The calls a session issues on its collaborators.\<close>

datatype call =
    DbGetLastSeens
  | DbGetSchemaNameAndVersion
  | InboundPrepare frontier
  | InboundReceiveChanges batch
  | OutboundStartStreaming batch
  | OutboundResetStream batch
  | OutboundStop
  | TransportAnnouncePresence presence
  | TransportClose

record SyncedDB =
  db :: DB
  transport :: Transport
  calls :: "call list"

section \<open>The session orchestrator\<close>

text \<open>
  The constructor stores the handle and the transport, builds the two streams and
  assigns the three callback slots of the transport.
\<close>

definition SyncedDB_new :: "DB \<Rightarrow> Transport \<Rightarrow> SyncedDB" where
  "SyncedDB_new d t =
     \<lparr>db = d,
      transport = t\<lparr>onChangesReceived := Some ReceiveChanges,
                    onStartStreaming := Some StartStreaming,
                    onResetStream := Some ResetStream\<rparr>,
      calls = []\<rparr>"

text \<open>
  \<open>start\<close> awaits the two queries one after the other; a query that rejects ends
  \<open>start\<close> at that point. After both it primes the inbound stream and announces
  presence.
\<close>

definition start :: "SyncedDB \<Rightarrow> (error + unit) \<times> SyncedDB" where
  "start s =
     (case getLastSeens (db s) of
        Inl e \<Rightarrow> (Inl e, s\<lparr>calls := calls s @ [DbGetLastSeens]\<rparr>)
      | Inr ls \<Rightarrow>
          (case getSchemaNameAndVersion (db s) of
             Inl e \<Rightarrow>
               (Inl e, s\<lparr>calls := calls s @ [DbGetLastSeens, DbGetSchemaNameAndVersion]\<rparr>)
           | Inr (n, v) \<Rightarrow>
               (Inr (),
                s\<lparr>calls := calls s @
                     [DbGetLastSeens, DbGetSchemaNameAndVersion, InboundPrepare ls,
                      TransportAnnouncePresence
                        \<lparr>tag = AnnouncePresence, lastSeens = ls, schemaName = n,
                         schemaVersion = v, sender = siteid (db s)\<rparr>]\<rparr>)))"

definition stop :: "SyncedDB \<Rightarrow> bool \<times> SyncedDB" where
  "stop s = (True, s\<lparr>calls := calls s @ [OutboundStop, TransportClose]\<rparr>)"

text \<open>
  The transport side of the wiring: when a batch arrives, the transport calls
  whatever its \<open>onChangesReceived\<close> slot holds at that moment.
\<close>

fun handler_call :: "handler \<Rightarrow> batch \<Rightarrow> call" where
  "handler_call ReceiveChanges b = InboundReceiveChanges b"
| "handler_call StartStreaming b = OutboundStartStreaming b"
| "handler_call ResetStream b = OutboundResetStream b"

definition deliverChanges :: "batch \<Rightarrow> SyncedDB \<Rightarrow> SyncedDB" where
  "deliverChanges b s =
     (case onChangesReceived (transport s) of
        None \<Rightarrow> s
      | Some h \<Rightarrow> s\<lparr>calls := calls s @ [handler_call h b]\<rparr>)"

fun deliverAll :: "batch list \<Rightarrow> SyncedDB \<Rightarrow> SyncedDB" where
  "deliverAll [] s = s"
| "deliverAll (b # bs) s = deliverAll bs (deliverChanges b s)"

text \<open>Views of a call list.\<close>

fun announcements :: "call list \<Rightarrow> presence list" where
  "announcements [] = []"
| "announcements (TransportAnnouncePresence m # cs) = m # announcements cs"
| "announcements (_ # cs) = announcements cs"

text \<open>
  \<open>primed_before p cs\<close>: no \<open>receiveChanges\<close> in \<open>cs\<close> comes before the first
  \<open>prepare\<close>, \<open>p\<close> telling whether a \<open>prepare\<close> has already run, and no presence is
  announced before it either.
\<close>

fun primed_before :: "bool \<Rightarrow> call list \<Rightarrow> bool" where
  "primed_before p [] = True"
| "primed_before p (InboundPrepare f # cs) = primed_before True cs"
| "primed_before p (InboundReceiveChanges b # cs) = (p \<and> primed_before p cs)"
| "primed_before p (TransportAnnouncePresence m # cs) = (p \<and> primed_before p cs)"
| "primed_before p (_ # cs) = primed_before p cs"

definition new_calls :: "SyncedDB \<Rightarrow> SyncedDB \<Rightarrow> call list" where
  "new_calls s s' = drop (length (calls s)) (calls s')"

text \<open>Concrete collaborators for the closed examples.\<close>

definition db0 :: DB where
  "db0 = \<lparr>siteid = ''site-A'',
          getLastSeens = Inr ((\<lambda>_. 0)(''site-B'' := 7)),
          getSchemaNameAndVersion = Inr (''notes'', 3)\<rparr>"

definition tr0 :: Transport where
  "tr0 = \<lparr>onChangesReceived = None, onStartStreaming = None, onResetStream = None\<rparr>"

definition batch0 :: batch where
  "batch0 = \<lparr>b_sender = ''site-B'', b_changes = [(8, ''x'')]\<rparr>"

section \<open>Exclusive sessions\<close>

text \<open>
  \<open>config.dbProvider\<close> and \<open>config.transportProvider\<close> are supplied by the
  embedding application; the transport options are folded into the provider.
\<close>

record config =
  dbProvider :: "string \<Rightarrow> DB"
  transportProvider :: "string \<Rightarrow> Transport"

definition createSyncedDB :: "config \<Rightarrow> string \<Rightarrow> SyncedDB" where
  "createSyncedDB cfg name = SyncedDB_new (dbProvider cfg name) (transportProvider cfg name)"

text \<open>
  Every invocation of \<open>createSyncedDB_Exclusive\<close> owns a closure: the variables
  \<open>stopRequested\<close> and \<open>db\<close>, and the promise \<open>hold\<close> with its resolver
  \<open>releaser\<close>. Invocations are numbered in the order they happen, and the number
  stands for the closure, for its releaser and for the session object made on its
  behalf. \<open>request\<close> is the state of its \<open>navigator.locks.request\<close>, \<open>session\<close>
  the state of the \<open>createSyncedDB\<close> promise inside \<open>startSync\<close>.
\<close>

type_synonym ctx = nat
type_synonym call_id = nat

datatype lock_request = Waiting | Holding | Done

datatype session = NoSession | Pending | Made SyncedDB

record invocation =
  ctx :: ctx
  dbname :: string
  stopRequested :: bool
  db_var :: "call_id option"
  hold :: bool
  request :: lock_request
  session :: session

text \<open>
  The module-level \<open>locks\<close> map exists once per execution context (tab or worker):
  it maps a database name to a releaser. The lock manager behind
  \<open>navigator.locks\<close> is shared by all contexts; the holder of a name is the
  invocation whose request is \<open>Holding\<close>.
\<close>

record world =
  locks :: "ctx \<Rightarrow> string \<rightharpoonup> call_id"
  invs :: "invocation list"

definition world0 :: world where
  "world0 = \<lparr>locks = (\<lambda>_. Map.empty), invs = []\<rparr>"

definition holder_free :: "world \<Rightarrow> string \<Rightarrow> bool" where
  "holder_free w n = (\<not> list_ex (\<lambda>i. request i = Holding \<and> dbname i = n) (invs w))"

definition waiters :: "world \<Rightarrow> string \<Rightarrow> call_id list" where
  "waiters w n =
     filter (\<lambda>k. request (invs w ! k) = Waiting \<and> dbname (invs w ! k) = n) [0..<length (invs w)]"

text \<open>
  The callback handed to \<open>startSync\<close> has a parameter named \<open>db\<close>, which hides the
  closure variable of the same name inside the callback body: the assignment
  \<open>db = db\<close> reads and writes the parameter. The frame of the callback holds the
  parameter.
\<close>

record cb_frame =
  param_db :: call_id

definition session_cb :: "invocation \<Rightarrow> cb_frame \<Rightarrow> (invocation \<times> cb_frame) \<times> bool" where
  "session_cb i fr =
     (if stopRequested i then ((i, fr), False)
      else ((i, fr\<lparr>param_db := param_db fr\<rparr>), True))"

text \<open>The \<open>then\<close> callback of \<open>startSync\<close>: start the session if the callback says so.\<close>

definition startSync_then :: "invocation \<Rightarrow> call_id \<Rightarrow> SyncedDB \<Rightarrow> invocation" where
  "startSync_then i c obj =
     (case session_cb i \<lparr>param_db = c\<rparr> of
        ((i', fr), ok) \<Rightarrow>
          if ok then i'\<lparr>session := Made (snd (start obj))\<rparr>
          else i'\<lparr>session := Made obj\<rparr>)"

text \<open>The lock callback: leave at once when a stop was requested, else start syncing
  and keep the lock until \<open>hold\<close> resolves.\<close>

definition lock_cb :: "invocation \<Rightarrow> invocation" where
  "lock_cb i =
     (if stopRequested i then i\<lparr>request := Done\<rparr>
      else i\<lparr>request := Holding, session := Pending\<rparr>)"

definition resolve_hold :: "call_id \<Rightarrow> invocation list \<Rightarrow> invocation list" where
  "resolve_hold r is = (if r < length is then is[r := (is ! r)\<lparr>hold := True\<rparr>] else is)"

definition session_stop :: "call_id \<Rightarrow> invocation list \<Rightarrow> invocation list" where
  "session_stop d is =
     (if d < length is then
        (case session (is ! d) of
           Made obj \<Rightarrow> is[d := (is ! d)\<lparr>session := Made (snd (stop obj))\<rparr>]
         | _ \<Rightarrow> is)
      else is)"

text \<open>The \<open>stop\<close> of the controller that invocation \<open>c\<close> returned.\<close>

definition controller_stop :: "call_id \<Rightarrow> world \<Rightarrow> world" where
  "controller_stop c w =
     (let i = invs w ! c;
          is1 = (invs w)[c := i\<lparr>stopRequested := True\<rparr>];
          is2 = (case locks w (ctx i) (dbname i) of
                   None \<Rightarrow> is1
                 | Some r \<Rightarrow> resolve_hold r is1);
          is3 = (case db_var i of
                   None \<Rightarrow> is2
                 | Some d \<Rightarrow> session_stop d is2)
      in w\<lparr>invs := is3\<rparr>)"

definition createSyncedDB_Exclusive :: "ctx \<Rightarrow> string \<Rightarrow> world \<Rightarrow> world" where
  "createSyncedDB_Exclusive x n w =
     w\<lparr>locks := (locks w)(x := (locks w x)(n \<mapsto> length (invs w))),
       invs := invs w @
         [\<lparr>ctx = x, dbname = n, stopRequested = False, db_var = None, hold = False,
           request = Waiting, session = NoSession\<rparr>]\<rparr>"

text \<open>
  One event is one run-to-completion task of the host:
  \<^item> \<open>Call x n\<close>: context \<open>x\<close> calls \<open>createSyncedDB_Exclusive n\<close>;
  \<^item> \<open>Grant c\<close>: the lock manager grants the request of \<open>c\<close> and runs its callback,
    possible only while nobody holds the name (no order among waiters is imposed);
  \<^item> \<open>Resolve c\<close>: the \<open>createSyncedDB\<close> promise of \<open>c\<close> fulfils and its \<open>then\<close>
    callback runs (\<open>start\<close> is taken in one piece);
  \<^item> \<open>Stop c\<close>: the controller's \<open>stop\<close>;
  \<^item> \<open>Release c\<close>: the promise returned by the lock callback has settled and the
    lock manager frees the name.
  An event that is not enabled gives \<open>None\<close>.
\<close>

datatype event = Call ctx string | Grant call_id | Resolve call_id | Stop call_id | Release call_id

fun exec :: "config \<Rightarrow> event \<Rightarrow> world \<Rightarrow> world option" where
  "exec cfg (Call x n) w = Some (createSyncedDB_Exclusive x n w)"
| "exec cfg (Grant c) w =
     (if c < length (invs w) \<and> request (invs w ! c) = Waiting
         \<and> holder_free w (dbname (invs w ! c))
      then Some (w\<lparr>invs := (invs w)[c := lock_cb (invs w ! c)]\<rparr>)
      else None)"
| "exec cfg (Resolve c) w =
     (if c < length (invs w) then
        (case session (invs w ! c) of
           Pending \<Rightarrow>
             Some (w\<lparr>invs := (invs w)[c :=
                     startSync_then (invs w ! c) c (createSyncedDB cfg (dbname (invs w ! c)))]\<rparr>)
         | _ \<Rightarrow> None)
      else None)"
| "exec cfg (Stop c) w =
     (if c < length (invs w) then Some (controller_stop c w) else None)"
| "exec cfg (Release c) w =
     (if c < length (invs w) \<and> request (invs w ! c) = Holding \<and> hold (invs w ! c)
      then Some (w\<lparr>invs := (invs w)[c := (invs w ! c)\<lparr>request := Done\<rparr>]\<rparr>)
      else None)"

fun run :: "config \<Rightarrow> event list \<Rightarrow> world \<Rightarrow> world option" where
  "run cfg [] w = Some w"
| "run cfg (e # es) w = (case exec cfg e w of None \<Rightarrow> None | Some w' \<Rightarrow> run cfg es w')"

text \<open>
  A session has been started when \<open>start\<close> has been invoked on it (its first act is
  the \<open>getLastSeens\<close> query), and stopped when \<open>stop\<close> has been invoked on it.
\<close>

fun is_start_call :: "call \<Rightarrow> bool" where
  "is_start_call DbGetLastSeens = True"
| "is_start_call _ = False"

fun is_stop_call :: "call \<Rightarrow> bool" where
  "is_stop_call OutboundStop = True"
| "is_stop_call TransportClose = True"
| "is_stop_call _ = False"

definition start_invoked :: "invocation \<Rightarrow> bool" where
  "start_invoked i =
     (case session i of Made obj \<Rightarrow> list_ex is_start_call (calls obj) | _ \<Rightarrow> False)"

definition stop_invoked :: "invocation \<Rightarrow> bool" where
  "stop_invoked i =
     (case session i of Made obj \<Rightarrow> list_ex is_stop_call (calls obj) | _ \<Rightarrow> False)"

definition running :: "invocation \<Rightarrow> bool" where
  "running i = (start_invoked i \<and> \<not> stop_invoked i)"

definition delivered :: "invocation \<Rightarrow> bool" where
  "delivered i = (case session i of Made obj \<Rightarrow> True | _ \<Rightarrow> False)"

definition cfg0 :: config where
  "cfg0 = \<lparr>dbProvider = (\<lambda>_. db0), transportProvider = (\<lambda>_. tr0)\<rparr>"

section \<open>The inbound stream\<close>

text \<open>
  Modelled from the spec: the class \<open>InboundStream\<close> (module
  \<open>streams/InboundStream\<close>) is not among the sources. Its state is the per-peer
  frontier it was primed with, the changes the database handle has applied through
  it, and the resend requests it has signalled to peers.
\<close>

record InboundStream =
  seen :: frontier
  applied :: "(site_id \<times> change) list"
  resends :: "(site_id \<times> version) list"

text \<open>
  Modelled from the spec: \<open>prepare(frontier)\<close> of the missing \<open>InboundStream\<close> seeds
  the per-peer expectation state.
\<close>

definition prepare :: "frontier \<Rightarrow> InboundStream \<Rightarrow> InboundStream" where
  "prepare f s = s\<lparr>seen := f\<rparr>"

text \<open>
  Modelled from the spec: \<open>receiveChanges(batch)\<close> of the missing \<open>InboundStream\<close>.
  The starting version of a batch is the version of its first change, its final
  version that of its last change; a batch without changes has neither and is
  passed over. (b) A batch that starts strictly ahead of frontier plus one is not
  applied; a resend from the recorded frontier is requested, handled inside the
  stream. (a) When the batch starts at or below the frontier, the changes up to
  the frontier are discarded and the rest is applied. (c) Otherwise the whole
  batch is applied. The frontier advances to the final version of the batch only
  when the database handle (\<open>accepts\<close>) has taken the changes; a refusal leaves the
  state as it was and is returned as an error.
\<close>

definition receiveChanges ::
  "(site_id \<Rightarrow> change list \<Rightarrow> bool) \<Rightarrow> batch \<Rightarrow> InboundStream \<Rightarrow> (error + unit) \<times> InboundStream"
where
  "receiveChanges accepts b s =
     (case b_changes b of
        [] \<Rightarrow> (Inr (), s)
      | c # cs \<Rightarrow>
          let f = seen s (b_sender b) in
          if f + 1 < fst c then
            (Inr (), s\<lparr>resends := resends s @ [(b_sender b, f)]\<rparr>)
          else
            let new = (if fst c \<le> f then dropWhile (\<lambda>ch. fst ch \<le> f) (b_changes b)
                       else b_changes b) in
            if new = [] then (Inr (), s)
            else if accepts (b_sender b) new then
              (Inr (),
               s\<lparr>seen := (seen s)(b_sender b := fst (last (b_changes b))),
                 applied := applied s @ map (Pair (b_sender b)) new\<rparr>)
            else (Inl ApplyRejected, s))"






definition stream0 :: InboundStream where
  "stream0 = prepare ((\<lambda>_. 0)(''site-B'' := 7)) \<lparr>seen = (\<lambda>_. 0), applied = [], resends = []\<rparr>"



definition gap_batch :: batch where
  "gap_batch = \<lparr>b_sender = ''site-B'', b_changes = [(12, ''w'')]\<rparr>"

section \<open>Invariants of the exclusive sessions\<close>

text \<open>
  In every invocation the closure variable \<open>db\<close> is null and no \<open>stop\<close> has been
  invoked on its session object.
\<close>

definition closure_ok :: "world \<Rightarrow> bool" where
  "closure_ok w =
     (\<forall>k < length (invs w). db_var (invs w ! k) = None \<and> \<not> stop_invoked (invs w ! k))"

text \<open>The releasers stored in the \<open>locks\<close> maps belong to invocations that exist.\<close>

definition locks_ok :: "world \<Rightarrow> bool" where
  "locks_ok w = (\<forall>x n k. locks w x n = Some k \<longrightarrow> k < length (invs w))"

text \<open>A waiting request has no session yet.\<close>

definition waiting_ok :: "world \<Rightarrow> bool" where
  "waiting_ok w =
     (\<forall>k < length (invs w). request (invs w ! k) = Waiting \<longrightarrow> session (invs w ! k) = NoSession)"

text \<open>Two contexts asking for the same name, the first one stopping after its start.\<close>

definition race_events :: "event list" where
  "race_events =
     [Call 0 ''db1'', Call 1 ''db1'', Grant 0, Resolve 0, Stop 0, Release 0, Grant 1, Resolve 1]"

definition solo_events :: "event list" where
  "solo_events = [Call 0 ''db1'', Grant 0, Resolve 0, Stop 0, Release 0]"

text \<open>Worlds reached by the example runs.\<close>

definition started_world :: world where
  "started_world =
     (case run cfg0 [Call 0 ''db1'', Grant 0, Resolve 0] world0 of Some w \<Rightarrow> w | None \<Rightarrow> world0)"

definition waiting_world :: world where
  "waiting_world = createSyncedDB_Exclusive 0 ''db1'' world0"

definition ended_world :: world where
  "ended_world =
     (case run cfg0 [Grant 0] (controller_stop 0 waiting_world) of Some w \<Rightarrow> w | None \<Rightarrow> world0)"

definition solo_world :: world where
  "solo_world = (case run cfg0 solo_events world0 of Some w \<Rightarrow> w | None \<Rightarrow> world0)"

definition race_world :: world where
  "race_world = (case run cfg0 race_events world0 of Some w \<Rightarrow> w | None \<Rightarrow> world0)"

definition held_world :: world where
  "held_world =
     (case run cfg0 [Grant 0] (createSyncedDB_Exclusive 0 ''db1'' world0) of
        Some w \<Rightarrow> w | None \<Rightarrow> world0)"

definition leak_world :: world where
  "leak_world =
     (case run cfg0 [Call 0 ''db1'', Grant 0, Call 0 ''db1''] world0 of
        Some w \<Rightarrow> w | None \<Rightarrow> world0)"

section \<open>Properties of the session orchestrator\<close>

text \<open>
  C5: when both queries succeed, \<open>start\<close> asks the database handle for the frontier
  and for the schema identity, primes the inbound stream with that frontier and
  then announces presence once, with the tag \<open>AnnouncePresence\<close>, the retrieved
  frontier, the schema name and version, and the site id of the handle as sender;
  \<open>prepare\<close> comes before \<open>announcePresence\<close>.
\<close>

theorem start_announces_presence:
  assumes "getLastSeens (db s) = Inr ls"
    and "getSchemaNameAndVersion (db s) = Inr (n, v)"
  shows "fst (start s) = Inr ()
       \<and> new_calls s (snd (start s)) =
           [DbGetLastSeens, DbGetSchemaNameAndVersion, InboundPrepare ls,
            TransportAnnouncePresence
              \<lparr>tag = AnnouncePresence, lastSeens = ls, schemaName = n,
               schemaVersion = v, sender = siteid (db s)\<rparr>]
       \<and> calls (snd (start s)) = calls s @ new_calls s (snd (start s))
       \<and> announcements (new_calls s (snd (start s))) =
           [\<lparr>tag = AnnouncePresence, lastSeens = ls, schemaName = n,
             schemaVersion = v, sender = siteid (db s)\<rparr>]
       \<and> primed_before False (new_calls s (snd (start s)))"
  using assms by (simp add: start_def new_calls_def)

theorem start_announces_presence_witness:
  "fst (start (SyncedDB_new db0 tr0)) = Inr ()
   \<and> announcements (calls (snd (start (SyncedDB_new db0 tr0)))) =
       [\<lparr>tag = AnnouncePresence, lastSeens = (\<lambda>_. 0)(''site-B'' := 7), schemaName = ''notes'',
         schemaVersion = 3, sender = ''site-A''\<rparr>]"
  using start_announces_presence [of "SyncedDB_new db0 tr0" "(\<lambda>_. 0)(''site-B'' := 7)" "''notes''" 3]
  by (simp add: SyncedDB_new_def db0_def new_calls_def)

text \<open>
  C6 as stated fails: \<open>stop\<close> has no guard, so a second call is not a no-op; it
  calls \<open>OutboundStream.stop\<close> and \<open>Transport.close\<close> once more.
\<close>

theorem stop_twice_counterexample:
  "snd (stop (snd (stop (SyncedDB_new db0 tr0)))) \<noteq> snd (stop (SyncedDB_new db0 tr0))
   \<and> calls (snd (stop (snd (stop (SyncedDB_new db0 tr0))))) =
       calls (snd (stop (SyncedDB_new db0 tr0))) @ [OutboundStop, TransportClose]"
  by (simp add: stop_def SyncedDB_new_def)

text \<open>
  C6, amended: every call of \<open>stop\<close> stops the outbound stream, then closes the
  transport, and returns true; a second call returns true as well and repeats
  both calls on the collaborators.
\<close>

theorem stop_repeats_calls:
  "fst (stop s) = True
   \<and> new_calls s (snd (stop s)) = [OutboundStop, TransportClose]
   \<and> db (snd (stop s)) = db s \<and> transport (snd (stop s)) = transport s
   \<and> fst (stop (snd (stop s))) = True
   \<and> new_calls (snd (stop s)) (snd (stop (snd (stop s)))) = [OutboundStop, TransportClose]
   \<and> calls (snd (stop (snd (stop s)))) =
       calls s @ [OutboundStop, TransportClose, OutboundStop, TransportClose]"
  by (simp add: stop_def new_calls_def)

text \<open>
  C2 as stated fails: the handlers are registered by the constructor, so a batch
  that the transport delivers between construction and \<open>start\<close> reaches
  \<open>receiveChanges\<close> although no \<open>prepare\<close> has run.
\<close>

theorem receive_before_prepare_counterexample:
  "onChangesReceived (transport (SyncedDB_new db0 tr0)) = Some ReceiveChanges
   \<and> calls (deliverChanges batch0 (SyncedDB_new db0 tr0)) = [InboundReceiveChanges batch0]
   \<and> \<not> primed_before False (calls (deliverChanges batch0 (SyncedDB_new db0 tr0)))"
  by (simp add: deliverChanges_def SyncedDB_new_def)

lemma deliverAll_calls:
  "onChangesReceived (transport s) = Some ReceiveChanges \<Longrightarrow>
   calls (deliverAll bs s) = calls s @ map InboundReceiveChanges bs
   \<and> transport (deliverAll bs s) = transport s"
  by (induction bs arbitrary: s) (simp_all add: deliverChanges_def)

lemma primed_before_receives: "primed_before True (map InboundReceiveChanges bs)"
  by (induction bs) simp_all

text \<open>
  C2, amended: the constructor registers the three stream handlers in the
  transport's callback slots and issues no call; \<open>start\<close> leaves the slots as they
  are and primes the inbound stream with the frontier of the handle. Every batch
  delivered after \<open>start\<close> has completed reaches \<open>receiveChanges\<close> after that
  \<open>prepare\<close>.
\<close>

theorem wiring_in_constructor_priming_in_start:
  assumes "start (SyncedDB_new d t) = (Inr u, s')"
  shows "onChangesReceived (transport (SyncedDB_new d t)) = Some ReceiveChanges
       \<and> onStartStreaming (transport (SyncedDB_new d t)) = Some StartStreaming
       \<and> onResetStream (transport (SyncedDB_new d t)) = Some ResetStream
       \<and> calls (SyncedDB_new d t) = []
       \<and> transport s' = transport (SyncedDB_new d t)
       \<and> (\<exists>ls. getLastSeens d = Inr ls
            \<and> calls (deliverAll bs s') =
                calls s' @ map InboundReceiveChanges bs
            \<and> InboundPrepare ls \<in> set (calls s'))
       \<and> primed_before False (calls (deliverAll bs s'))"
proof -
  let ?s = "SyncedDB_new d t"
  from assms obtain ls n v where ls: "getLastSeens d = Inr ls"
    and nv: "getSchemaNameAndVersion d = Inr (n, v)"
    by (auto simp: start_def SyncedDB_new_def split: sum.splits)
  have s': "s' = ?s\<lparr>calls := [DbGetLastSeens, DbGetSchemaNameAndVersion, InboundPrepare ls,
       TransportAnnouncePresence \<lparr>tag = AnnouncePresence, lastSeens = ls, schemaName = n,
         schemaVersion = v, sender = siteid d\<rparr>]\<rparr>"
    using assms ls nv by (simp add: start_def SyncedDB_new_def)
  have slot: "onChangesReceived (transport s') = Some ReceiveChanges"
    by (simp add: s' SyncedDB_new_def)
  have dl: "calls (deliverAll bs s') = calls s' @ map InboundReceiveChanges bs"
    using deliverAll_calls [OF slot] by simp
  have pb: "primed_before False (calls (deliverAll bs s'))"
    unfolding dl by (simp add: s' SyncedDB_new_def primed_before_receives)
  show ?thesis using ls dl pb by (simp add: s' SyncedDB_new_def)
qed

theorem wiring_in_constructor_priming_in_start_witness:
  "start (SyncedDB_new db0 tr0) = (Inr (), snd (start (SyncedDB_new db0 tr0)))
   \<and> primed_before False (calls (deliverAll [batch0] (snd (start (SyncedDB_new db0 tr0)))))"
proof -
  have h: "start (SyncedDB_new db0 tr0) = (Inr (), snd (start (SyncedDB_new db0 tr0)))"
    by (simp add: start_def SyncedDB_new_def db0_def)
  show ?thesis
    using h wiring_in_constructor_priming_in_start [OF h, of "[batch0]"] by simp
qed

section \<open>Properties of the inbound stream\<close>
















text \<open>
  C8: a batch whose starting version lies strictly beyond the recorded frontier of
  its peer plus one has none of its changes applied, leaves the frontier as it
  is, and makes the stream request a resend from that frontier.
\<close>

theorem gap_requests_resend:
  assumes "b_changes b \<noteq> []"
    and "seen s (b_sender b) + 1 < fst (hd (b_changes b))"
  shows "fst (receiveChanges accepts b s) = Inr ()
       \<and> applied (snd (receiveChanges accepts b s)) = applied s
       \<and> seen (snd (receiveChanges accepts b s)) = seen s
       \<and> resends (snd (receiveChanges accepts b s)) =
           resends s @ [(b_sender b, seen s (b_sender b))]"
  using assms by (cases "b_changes b") (simp_all add: receiveChanges_def)

theorem gap_requests_resend_witness:
  "b_changes gap_batch \<noteq> []
   \<and> seen stream0 ''site-B'' + 1 < 12
   \<and> applied (snd (receiveChanges (\<lambda>_ _. True) gap_batch stream0)) = []
   \<and> resends (snd (receiveChanges (\<lambda>_ _. True) gap_batch stream0)) = [(''site-B'', 7)]"
  using gap_requests_resend [of "gap_batch" stream0 "\<lambda>_ _. True"]
  by (simp add: stream0_def prepare_def gap_batch_def)

section \<open>Properties of the exclusive sessions\<close>

lemma nth_upd: "xs[c := v] ! k = (if k = c \<and> c < length xs then v else xs ! k)"
  by (cases "c < length xs") (simp_all add: nth_list_update list_update_beyond)

lemma length_resolve_hold [simp]: "length (resolve_hold r is) = length is"
  by (simp add: resolve_hold_def)

lemma length_session_stop [simp]: "length (session_stop d is) = length is"
  by (simp add: session_stop_def split: session.splits)

lemma nth_resolve_hold:
  "k < length is \<Longrightarrow>
   resolve_hold r is ! k = (if k = r then (is ! k)\<lparr>hold := True\<rparr> else is ! k)"
  by (simp add: resolve_hold_def nth_upd)

lemma nth_session_stop:
  "k < length is \<Longrightarrow>
   session_stop d is ! k =
     (if k = d then
        (case session (is ! k) of
           Made obj \<Rightarrow> (is ! k)\<lparr>session := Made (snd (stop obj))\<rparr>
         | _ \<Rightarrow> is ! k)
      else is ! k)"
  by (simp add: session_stop_def nth_upd split: session.splits)

lemma length_controller_stop [simp]: "length (invs (controller_stop c w)) = length (invs w)"
  by (simp add: controller_stop_def Let_def split: option.splits)

lemma locks_controller_stop [simp]: "locks (controller_stop c w) = locks w"
  by (simp add: controller_stop_def Let_def)

text \<open>Effect of the controller's stop while the closure variable db is null.\<close>

lemma controller_stop_null:
  assumes "db_var (invs w ! c) = None"
  shows "controller_stop c w =
     w\<lparr>invs := (case locks w (ctx (invs w ! c)) (dbname (invs w ! c)) of
                  None \<Rightarrow> (invs w)[c := (invs w ! c)\<lparr>stopRequested := True\<rparr>]
                | Some r \<Rightarrow>
                    resolve_hold r ((invs w)[c := (invs w ! c)\<lparr>stopRequested := True\<rparr>]))\<rparr>"
  using assms by (simp add: controller_stop_def Let_def)

lemma lock_cb_fields [simp]:
  "ctx (lock_cb i) = ctx i" "dbname (lock_cb i) = dbname i"
  "stopRequested (lock_cb i) = stopRequested i" "db_var (lock_cb i) = db_var i"
  "hold (lock_cb i) = hold i"
  by (simp_all add: lock_cb_def)

lemma startSync_then_fields [simp]:
  "ctx (startSync_then i c obj) = ctx i" "dbname (startSync_then i c obj) = dbname i"
  "stopRequested (startSync_then i c obj) = stopRequested i"
  "db_var (startSync_then i c obj) = db_var i"
  "hold (startSync_then i c obj) = hold i" "request (startSync_then i c obj) = request i"
  by (simp_all add: startSync_then_def session_cb_def)

lemma exec_length: "exec cfg e w = Some w' \<Longrightarrow> length (invs w) \<le> length (invs w')"
  by (cases e) (auto simp: createSyncedDB_Exclusive_def split: if_splits session.splits)

lemma run_length: "run cfg es w = Some w' \<Longrightarrow> length (invs w) \<le> length (invs w')"
proof (induction es arbitrary: w)
  case Nil then show ?case by simp
next
  case (Cons e es)
  from Cons.prems obtain w1 where e: "exec cfg e w = Some w1" and r: "run cfg es w1 = Some w'"
    by (auto split: option.splits)
  from exec_length [OF e] Cons.IH [OF r] show ?case by simp
qed

lemma controller_stop_ident:
  "k < length (invs w) \<Longrightarrow>
   ctx (invs (controller_stop c w) ! k) = ctx (invs w ! k)
   \<and> dbname (invs (controller_stop c w) ! k) = dbname (invs w ! k)
   \<and> db_var (invs (controller_stop c w) ! k) = db_var (invs w ! k)
   \<and> request (invs (controller_stop c w) ! k) = request (invs w ! k)
   \<and> (stopRequested (invs w ! k) \<longrightarrow> stopRequested (invs (controller_stop c w) ! k))
   \<and> (hold (invs w ! k) \<longrightarrow> hold (invs (controller_stop c w) ! k))"
  by (simp add: controller_stop_def Let_def nth_resolve_hold nth_session_stop nth_upd
      split: option.splits session.splits)

lemma exec_ident:
  "exec cfg e w = Some w' \<Longrightarrow> k < length (invs w) \<Longrightarrow>
   ctx (invs w' ! k) = ctx (invs w ! k) \<and> dbname (invs w' ! k) = dbname (invs w ! k)
   \<and> db_var (invs w' ! k) = db_var (invs w ! k)
   \<and> (stopRequested (invs w ! k) \<longrightarrow> stopRequested (invs w' ! k))
   \<and> (hold (invs w ! k) \<longrightarrow> hold (invs w' ! k))"
  by (cases e)
     (auto simp: createSyncedDB_Exclusive_def nth_append nth_upd controller_stop_ident
       split: if_splits session.splits)


lemma start_no_stop_call:
  "list_ex is_stop_call (calls (snd (start s))) = list_ex is_stop_call (calls s)"
  by (simp add: start_def split: sum.splits prod.splits)

lemma created_no_calls: "calls (createSyncedDB cfg n) = []"
  by (simp add: createSyncedDB_def SyncedDB_new_def)

lemma startSync_then_not_stopped:
  "\<not> stop_invoked (startSync_then i c (createSyncedDB cfg n))"
  by (simp add: startSync_then_def session_cb_def stop_invoked_def start_no_stop_call
      created_no_calls)

lemma lock_cb_not_stopped: "\<not> stop_invoked i \<Longrightarrow> \<not> stop_invoked (lock_cb i)"
  by (auto simp: lock_cb_def stop_invoked_def)

lemma controller_stop_session:
  assumes "db_var (invs w ! c) = None" and "k < length (invs w)"
  shows "session (invs (controller_stop c w) ! k) = session (invs w ! k)"
  using assms(2)
  by (simp add: controller_stop_null [OF assms(1)] nth_resolve_hold nth_upd
      split: option.splits)

lemma closure_ok_exec:
  assumes "exec cfg e w = Some w'" and "closure_ok w"
  shows "closure_ok w'"
proof (cases e)
  case (Call x n)
  then show ?thesis using assms
    by (auto simp: closure_ok_def createSyncedDB_Exclusive_def nth_append stop_invoked_def
        less_Suc_eq)
next
  case (Grant c)
  then show ?thesis using assms
    by (auto simp: closure_ok_def nth_upd lock_cb_not_stopped split: if_splits)
next
  case (Resolve c)
  then show ?thesis using assms
    by (auto simp: closure_ok_def nth_upd startSync_then_not_stopped
        split: if_splits session.splits)
next
  case (Stop c)
  with assms have c: "c < length (invs w)" and w': "w' = controller_stop c w"
    by (auto split: if_splits)
  from assms(2) c have null: "db_var (invs w ! c) = None" by (simp add: closure_ok_def)
  show ?thesis
    unfolding closure_ok_def w'
  proof (intro allI impI)
    fix k assume "k < length (invs (controller_stop c w))"
    then have k: "k < length (invs w)" by simp
    from controller_stop_session [OF null k] controller_stop_ident [OF k, of c] assms(2) k
    show "db_var (invs (controller_stop c w) ! k) = None
        \<and> \<not> stop_invoked (invs (controller_stop c w) ! k)"
      by (simp add: closure_ok_def stop_invoked_def)
  qed
next
  case (Release c)
  then show ?thesis using assms
    by (auto simp: closure_ok_def nth_upd stop_invoked_def split: if_splits)
qed

lemma closure_ok_run: "run cfg es w = Some w' \<Longrightarrow> closure_ok w \<Longrightarrow> closure_ok w'"
proof (induction es arbitrary: w)
  case Nil then show ?case by simp
next
  case (Cons e es)
  from Cons.prems(1) obtain w1 where e: "exec cfg e w = Some w1"
    and r: "run cfg es w1 = Some w'"
    by (auto split: option.splits)
  from Cons.IH [OF r closure_ok_exec [OF e Cons.prems(2)]] show ?case .
qed

lemma closure_ok_world0: "closure_ok world0"
  by (simp add: closure_ok_def world0_def)

lemma locks_ok_exec: "exec cfg e w = Some w' \<Longrightarrow> locks_ok w \<Longrightarrow> locks_ok w'"
  by (cases e)
     (auto simp: locks_ok_def createSyncedDB_Exclusive_def less_Suc_eq
       split: if_splits session.splits)

lemma locks_ok_world0: "locks_ok world0"
  by (simp add: locks_ok_def world0_def)

lemma exec_locks_kept: "exec cfg e w = Some w' \<Longrightarrow> locks w x n \<noteq> None \<Longrightarrow> locks w' x n \<noteq> None"
  by (cases e) (auto simp: createSyncedDB_Exclusive_def split: if_splits session.splits)

lemma run_locks_kept: "run cfg es w = Some w' \<Longrightarrow> locks w x n \<noteq> None \<Longrightarrow> locks w' x n \<noteq> None"
proof (induction es arbitrary: w)
  case Nil then show ?case by simp
next
  case (Cons e es)
  from Cons.prems(1) obtain w1 where e: "exec cfg e w = Some w1"
    and r: "run cfg es w1 = Some w'"
    by (auto split: option.splits)
  from Cons.IH [OF r exec_locks_kept [OF e Cons.prems(2)]] show ?case .
qed

text \<open>
  C4: in every execution the closure variable \<open>db\<close> of an invocation stays null,
  so the controller's \<open>stop\<close> only sets \<open>stopRequested\<close> and resolves the releaser
  found in the \<open>locks\<close> map; it never invokes \<open>stop\<close> on the session. A session
  that was started is still running after the controller's \<open>stop\<close>: its outbound
  stream was not stopped and its transport was not closed.
\<close>

theorem controller_stop_leaves_session_running:
  assumes "run cfg es world0 = Some w" and "c < length (invs w)"
  shows "db_var (invs w ! c) = None
       \<and> \<not> stop_invoked (invs w ! c)
       \<and> (start_invoked (invs w ! c) \<longrightarrow> running (invs w ! c))
       \<and> controller_stop c w =
           w\<lparr>invs := (case locks w (ctx (invs w ! c)) (dbname (invs w ! c)) of
                  None \<Rightarrow> (invs w)[c := (invs w ! c)\<lparr>stopRequested := True\<rparr>]
                | Some r \<Rightarrow>
                    resolve_hold r ((invs w)[c := (invs w ! c)\<lparr>stopRequested := True\<rparr>]))\<rparr>
       \<and> session (invs (controller_stop c w) ! c) = session (invs w ! c)
       \<and> (start_invoked (invs w ! c) \<longrightarrow> running (invs (controller_stop c w) ! c))"
proof -
  have ok: "closure_ok w" using closure_ok_run [OF assms(1) closure_ok_world0] .
  then have null: "db_var (invs w ! c) = None" and ns: "\<not> stop_invoked (invs w ! c)"
    using assms(2) by (simp_all add: closure_ok_def)
  have sess: "session (invs (controller_stop c w) ! c) = session (invs w ! c)"
    using controller_stop_session [OF null assms(2)] .
  show ?thesis
    using null ns sess controller_stop_null [OF null]
    by (simp add: running_def start_invoked_def stop_invoked_def)
qed

lemmas world_defs =
  world0_def cfg0_def db0_def tr0_def createSyncedDB_Exclusive_def holder_free_def waiters_def
  lock_cb_def startSync_then_def session_cb_def createSyncedDB_def SyncedDB_new_def start_def
  stop_def controller_stop_def resolve_hold_def session_stop_def Let_def running_def
  start_invoked_def stop_invoked_def delivered_def

theorem controller_stop_leaves_session_running_witness:
  "run cfg0 [Call 0 ''db1'', Grant 0, Resolve 0] world0 = Some started_world
   \<and> start_invoked (invs started_world ! 0)
   \<and> running (invs (controller_stop 0 started_world) ! 0)
   \<and> stopRequested (invs (controller_stop 0 started_world) ! 0)
   \<and> hold (invs (controller_stop 0 started_world) ! 0)"
proof -
  have r: "run cfg0 [Call 0 ''db1'', Grant 0, Resolve 0] world0 = Some started_world"
    by (simp add: started_world_def world_defs)
  have c: "0 < length (invs started_world)"
    by (simp add: started_world_def world_defs)
  have s: "start_invoked (invs started_world ! 0)"
    by (simp add: started_world_def world_defs)
  have f: "stopRequested (invs (controller_stop 0 started_world) ! 0)
      \<and> hold (invs (controller_stop 0 started_world) ! 0)"
    by (simp add: started_world_def world_defs)
  have t: "running (invs (controller_stop 0 started_world) ! 0)"
    using controller_stop_leaves_session_running [OF r c] s by blast
  from r s t f show ?thesis by blast
qed

lemma run_invariant:
  assumes "run cfg es w = Some w'" and "P w"
    and step: "\<And>e v v'. exec cfg e v = Some v' \<Longrightarrow> P v \<Longrightarrow> P v'"
  shows "P w'"
  using assms(1,2)
proof (induction es arbitrary: w)
  case Nil then show ?case by simp
next
  case (Cons e es)
  from Cons.prems(1) obtain w1 where e: "exec cfg e w = Some w1"
    and r: "run cfg es w1 = Some w'"
    by (auto split: option.splits)
  from Cons.IH [OF r step [OF e Cons.prems(2)]] show ?case .
qed

lemma stop_no_start_call:
  "list_ex is_start_call (calls (snd (stop s))) = list_ex is_start_call (calls s)"
  by (simp add: stop_def)

lemma controller_stop_start_invoked:
  "k < length (invs w) \<Longrightarrow>
   start_invoked (invs (controller_stop c w) ! k) = start_invoked (invs w ! k)"
  by (simp add: controller_stop_def Let_def nth_resolve_hold nth_session_stop nth_upd
      start_invoked_def stop_no_start_call split: option.splits session.splits)

lemma controller_stop_NoSession:
  "k < length (invs w) \<Longrightarrow> session (invs w ! k) = NoSession \<Longrightarrow>
   session (invs (controller_stop c w) ! k) = NoSession"
  by (auto simp: controller_stop_def Let_def nth_resolve_hold nth_session_stop nth_upd
      split: option.splits session.splits)

lemma controller_stop_sets_flag:
  "c < length (invs w) \<Longrightarrow> stopRequested (invs (controller_stop c w) ! c)"
  by (simp add: controller_stop_def Let_def nth_resolve_hold nth_session_stop nth_upd
      split: option.splits session.splits)

lemma startSync_then_stopped:
  "stopRequested i \<Longrightarrow> \<not> start_invoked (startSync_then i c (createSyncedDB cfg n))"
  by (simp add: startSync_then_def session_cb_def start_invoked_def created_no_calls)

text \<open>Once a stop was requested before the start, the session is never started.\<close>

lemma stopped_unstarted_exec:
  assumes "exec cfg e w = Some w'"
    and "c < length (invs w) \<and> stopRequested (invs w ! c) \<and> \<not> start_invoked (invs w ! c)"
  shows "c < length (invs w') \<and> stopRequested (invs w' ! c) \<and> \<not> start_invoked (invs w' ! c)"
proof (cases e)
  case (Call x n)
  then show ?thesis using assms
    by (auto simp: createSyncedDB_Exclusive_def nth_append)
next
  case (Grant k)
  then show ?thesis using assms
    by (auto simp: nth_upd lock_cb_def start_invoked_def split: if_splits)
next
  case (Resolve k)
  then show ?thesis using assms
    by (auto simp: nth_upd startSync_then_stopped split: if_splits session.splits)
next
  case (Stop k)
  then show ?thesis using assms controller_stop_ident [of c w k]
    by (auto simp: controller_stop_start_invoked split: if_splits)
next
  case (Release k)
  then show ?thesis using assms
    by (auto simp: nth_upd start_invoked_def split: if_splits)
qed

text \<open>A request that is still waiting when the stop is requested never holds the lock,
  and no session object is made for it.\<close>

lemma withdrawn_exec:
  assumes "exec cfg e w = Some w'"
    and "c < length (invs w) \<and> stopRequested (invs w ! c)
         \<and> request (invs w ! c) \<noteq> Holding \<and> session (invs w ! c) = NoSession"
  shows "c < length (invs w') \<and> stopRequested (invs w' ! c)
         \<and> request (invs w' ! c) \<noteq> Holding \<and> session (invs w' ! c) = NoSession"
proof (cases e)
  case (Call x n)
  then show ?thesis using assms
    by (auto simp: createSyncedDB_Exclusive_def nth_append)
next
  case (Grant k)
  then show ?thesis using assms
    by (auto simp: nth_upd lock_cb_def split: if_splits)
next
  case (Resolve k)
  then show ?thesis using assms
    by (auto simp: nth_upd split: if_splits session.splits)
next
  case (Stop k)
  then show ?thesis using assms controller_stop_ident [of c w k]
    by (auto simp: controller_stop_NoSession split: if_splits)
next
  case (Release k)
  then show ?thesis using assms
    by (auto simp: nth_upd split: if_splits)
qed

lemma waiting_ok_exec:
  assumes "exec cfg e w = Some w'" and "waiting_ok w"
  shows "waiting_ok w'"
proof (cases e)
  case (Call x n)
  then show ?thesis using assms
    by (auto simp: waiting_ok_def createSyncedDB_Exclusive_def nth_append less_Suc_eq)
next
  case (Grant k)
  then show ?thesis using assms
    by (auto simp: waiting_ok_def nth_upd lock_cb_def split: if_splits)
next
  case (Resolve k)
  then show ?thesis using assms
    by (auto simp: waiting_ok_def nth_upd split: if_splits session.splits)
next
  case (Stop k)
  then show ?thesis using assms
    by (auto simp: waiting_ok_def controller_stop_ident controller_stop_NoSession split: if_splits)
next
  case (Release k)
  then show ?thesis using assms
    by (auto simp: waiting_ok_def nth_upd split: if_splits)
qed

lemma waiting_ok_world0: "waiting_ok world0"
  by (simp add: waiting_ok_def world0_def)

lemma controller_stop_hold:
  "k < length (invs w) \<Longrightarrow>
   hold (invs (controller_stop c w) ! k) =
     (hold (invs w ! k) \<or> locks w (ctx (invs w ! c)) (dbname (invs w ! c)) = Some k)"
  by (auto simp: controller_stop_def Let_def nth_resolve_hold nth_session_stop nth_upd
      split: option.splits session.splits)

lemma withdrawn_request_exec:
  assumes "exec cfg e v = Some v'"
    and "c < length (invs v) \<and> stopRequested (invs v ! c)
         \<and> request (invs v ! c) \<noteq> Holding \<and> session (invs v ! c) = NoSession"
  shows "request (invs v' ! c) = (if e = Grant c then Done else request (invs v ! c))"
proof (cases e)
  case (Call x n)
  then show ?thesis using assms
    by (auto simp: createSyncedDB_Exclusive_def nth_append)
next
  case (Grant k)
  then show ?thesis using assms
    by (auto simp: nth_upd lock_cb_def split: if_splits)
next
  case (Resolve k)
  then show ?thesis using assms
    by (auto simp: nth_upd split: if_splits session.splits)
next
  case (Stop k)
  then show ?thesis using assms controller_stop_ident [of c v k]
    by (auto split: if_splits)
next
  case (Release k)
  then show ?thesis using assms
    by (auto simp: nth_upd split: if_splits)
qed

lemma withdrawn_run:
  assumes "run cfg es v = Some w'"
    and "c < length (invs v) \<and> stopRequested (invs v ! c)
         \<and> request (invs v ! c) \<noteq> Holding \<and> session (invs v ! c) = NoSession"
  shows "request (invs w' ! c) \<noteq> Holding \<and> session (invs w' ! c) = NoSession
       \<and> request (invs w' ! c) = (if Grant c \<in> set es then Done else request (invs v ! c))"
  using assms
proof (induction es arbitrary: v)
  case Nil
  then show ?case by simp
next
  case (Cons e es)
  from Cons.prems(1) obtain v1 where e: "exec cfg e v = Some v1"
    and r: "run cfg es v1 = Some w'"
    by (auto split: option.splits)
  note k1 = withdrawn_exec [OF e Cons.prems(2)]
  note q1 = withdrawn_request_exec [OF e Cons.prems(2)]
  from Cons.IH [OF r k1] q1 show ?case by auto
qed

text \<open>A request that holds the lock and whose \<open>hold\<close> promise is resolved keeps
  both until the lock manager releases it.\<close>

lemma released_exec:
  assumes "exec cfg e v = Some v'"
    and "c < length (invs v) \<and> hold (invs v ! c) \<and> request (invs v ! c) \<noteq> Waiting"
  shows "c < length (invs v') \<and> hold (invs v' ! c) \<and> request (invs v' ! c) \<noteq> Waiting
       \<and> request (invs v' ! c) = (if e = Release c then Done else request (invs v ! c))"
proof (cases e)
  case (Call x n)
  then show ?thesis using assms
    by (auto simp: createSyncedDB_Exclusive_def nth_append)
next
  case (Grant k)
  then show ?thesis using assms
    by (auto simp: nth_upd split: if_splits)
next
  case (Resolve k)
  then show ?thesis using assms
    by (auto simp: nth_upd split: if_splits session.splits)
next
  case (Stop k)
  then show ?thesis using assms controller_stop_ident [of c v k]
    by (auto split: if_splits)
next
  case (Release k)
  then show ?thesis using assms
    by (auto simp: nth_upd split: if_splits)
qed

lemma released_run:
  assumes "run cfg es v = Some w'"
    and "c < length (invs v) \<and> hold (invs v ! c) \<and> request (invs v ! c) \<noteq> Waiting"
  shows "c < length (invs w') \<and> hold (invs w' ! c)
       \<and> request (invs w' ! c) = (if Release c \<in> set es then Done else request (invs v ! c))"
  using assms
proof (induction es arbitrary: v)
  case Nil
  then show ?case by simp
next
  case (Cons e es)
  from Cons.prems(1) obtain v1 where e: "exec cfg e v = Some v1"
    and r: "run cfg es v1 = Some w'"
    by (auto split: option.splits)
  note k1 = released_exec [OF e Cons.prems(2)]
  from k1 have k1': "c < length (invs v1) \<and> hold (invs v1 ! c) \<and> request (invs v1 ! c) \<noteq> Waiting"
    by blast
  from Cons.IH [OF r k1'] k1 Cons.prems(2) show ?case by (auto split: if_splits)
qed

text \<open>
  C3 as stated fails: the request is handed to the lock manager without a way to
  take it back, so a request that is still waiting when \<open>stop\<close> is called stays
  queued and is granted later; and when a later call for the same name in the
  same context has replaced the releaser in the \<open>locks\<close> map, a \<open>stop\<close> that comes
  after the lock callback ran and before the session object is delivered leaves
  the request holding the lock, its \<open>hold\<close> promise unresolved, so that neither
  its release nor the grant of the next request is possible.
\<close>

theorem stop_keeps_request_counterexample:
  "\<not> delivered (invs waiting_world ! 0)
   \<and> waiters (controller_stop 0 waiting_world) ''db1'' = [0]
   \<and> exec cfg0 (Grant 0) (controller_stop 0 waiting_world) = Some ended_world
   \<and> run cfg0 [Call 0 ''db1'', Grant 0, Call 0 ''db1''] world0 = Some leak_world
   \<and> session (invs leak_world ! 0) = Pending
   \<and> \<not> delivered (invs leak_world ! 0)
   \<and> request (invs (controller_stop 0 leak_world) ! 0) = Holding
   \<and> \<not> hold (invs (controller_stop 0 leak_world) ! 0)
   \<and> exec cfg0 (Release 0) (controller_stop 0 leak_world) = None
   \<and> exec cfg0 (Grant 1) (controller_stop 0 leak_world) = None"
  by (simp add: waiting_world_def ended_world_def leak_world_def world_defs)

text \<open>
  C3, amended: when the controller's \<open>stop\<close> is invoked before the session object
  has been delivered to the callback (the lock callback has not run yet, or it
  has and \<open>createSyncedDB\<close> is still pending), \<open>start\<close> is never invoked on the
  session in the rest of the execution. A request that was still waiting stays
  queued until the lock manager grants it; its callback then returns at once, so
  the request ends without ever holding the lock, and no session object is made
  for it. When the lock callback had already run and the \<open>locks\<close> map still holds
  the releaser of this call, \<open>stop\<close> resolves its \<open>hold\<close> promise, which stays
  resolved, and the request ends as soon as the lock manager releases it.
\<close>

theorem stop_before_delivery_never_starts:
  assumes "run cfg es0 world0 = Some w"
    and "c < length (invs w)"
    and "\<not> delivered (invs w ! c)"
    and "run cfg es (controller_stop c w) = Some w'"
  shows "\<not> start_invoked (invs w' ! c)
       \<and> (request (invs w ! c) = Waiting \<longrightarrow>
            request (invs w' ! c) \<noteq> Holding \<and> session (invs w' ! c) = NoSession
            \<and> request (invs w' ! c) = (if Grant c \<in> set es then Done else Waiting))
       \<and> (request (invs w ! c) = Holding
            \<and> locks w (ctx (invs w ! c)) (dbname (invs w ! c)) = Some c \<longrightarrow>
            hold (invs (controller_stop c w) ! c) \<and> hold (invs w' ! c)
            \<and> request (invs w' ! c) = (if Release c \<in> set es then Done else Holding))"
proof -
  let ?v = "controller_stop c w"
  have flag: "stopRequested (invs ?v ! c)" using assms(2) by (rule controller_stop_sets_flag)
  have "\<not> start_invoked (invs w ! c)"
    using assms(3) by (auto simp: delivered_def start_invoked_def split: session.splits)
  then have ns: "\<not> start_invoked (invs ?v ! c)"
    using assms(2) by (simp add: controller_stop_start_invoked)
  have "c < length (invs w') \<and> stopRequested (invs w' ! c) \<and> \<not> start_invoked (invs w' ! c)"
    by (rule run_invariant [OF assms(4), where P = "\<lambda>v. c < length (invs v)
          \<and> stopRequested (invs v ! c) \<and> \<not> start_invoked (invs v ! c)"])
       (use flag ns assms(2) in simp, rule stopped_unstarted_exec)
  then have part1: "\<not> start_invoked (invs w' ! c)" by simp
  have wok: "waiting_ok w"
    by (rule run_invariant [OF assms(1), where P = waiting_ok])
       (rule waiting_ok_world0, rule waiting_ok_exec)
  have part2: "request (invs w' ! c) \<noteq> Holding \<and> session (invs w' ! c) = NoSession
      \<and> request (invs w' ! c) = (if Grant c \<in> set es then Done else Waiting)"
    if wt: "request (invs w ! c) = Waiting"
  proof -
    from wok wt assms(2) have s0: "session (invs w ! c) = NoSession"
      by (simp add: waiting_ok_def)
    have rq: "request (invs ?v ! c) = Waiting"
      using wt controller_stop_ident [OF assms(2), of c] by simp
    have start: "c < length (invs ?v) \<and> stopRequested (invs ?v ! c)
         \<and> request (invs ?v ! c) \<noteq> Holding \<and> session (invs ?v ! c) = NoSession"
      using flag assms(2) rq controller_stop_NoSession [OF assms(2) s0, of c]
      by simp
    from withdrawn_run [OF assms(4) start] rq show ?thesis by simp
  qed
  have part3: "hold (invs ?v ! c) \<and> hold (invs w' ! c)
      \<and> request (invs w' ! c) = (if Release c \<in> set es then Done else Holding)"
    if hd: "request (invs w ! c) = Holding"
      and own: "locks w (ctx (invs w ! c)) (dbname (invs w ! c)) = Some c"
  proof -
    have h: "hold (invs ?v ! c)"
      using own assms(2) by (simp add: controller_stop_hold)
    have rq: "request (invs ?v ! c) = Holding"
      using hd controller_stop_ident [OF assms(2), of c] by simp
    have start: "c < length (invs ?v) \<and> hold (invs ?v ! c) \<and> request (invs ?v ! c) \<noteq> Waiting"
      using h rq assms(2) by simp
    from released_run [OF assms(4) start] h rq show ?thesis by simp
  qed
  show ?thesis using part1 part2 part3 by blast
qed

theorem stop_before_delivery_never_starts_witness:
  "run cfg0 [Call 0 ''db1''] world0 = Some waiting_world
   \<and> \<not> delivered (invs waiting_world ! 0)
   \<and> request (invs waiting_world ! 0) = Waiting
   \<and> run cfg0 [Grant 0] (controller_stop 0 waiting_world) = Some ended_world
   \<and> \<not> start_invoked (invs ended_world ! 0)
   \<and> request (invs ended_world ! 0) = Done
   \<and> session (invs ended_world ! 0) = NoSession"
proof -
  have r: "run cfg0 [Call 0 ''db1''] world0 = Some waiting_world"
    by (simp add: waiting_world_def)
  have c: "0 < length (invs waiting_world)"
    by (simp add: waiting_world_def world_defs)
  have d: "\<not> delivered (invs waiting_world ! 0)"
    by (simp add: waiting_world_def world_defs)
  have q: "request (invs waiting_world ! 0) = Waiting"
    by (simp add: waiting_world_def world_defs)
  have g: "run cfg0 [Grant 0] (controller_stop 0 waiting_world) = Some ended_world"
    by (simp add: ended_world_def waiting_world_def world_defs)
  have t: "\<not> start_invoked (invs ended_world ! 0)
      \<and> request (invs ended_world ! 0) = Done
      \<and> session (invs ended_world ! 0) = NoSession"
    using stop_before_delivery_never_starts [OF r c d g] q by simp
  from r d q g t show ?thesis by blast
qed

text \<open>
  C1 fails on the code: two contexts ask for the same name; the first starts,
  its controller's \<open>stop\<close> releases the lock without stopping the session, the
  second starts, and both sessions are started and not stopped.
\<close>

theorem exclusive_sessions_both_running:
  "run cfg0 race_events world0 = Some race_world
   \<and> ctx (invs race_world ! 0) = 0 \<and> ctx (invs race_world ! 1) = 1
   \<and> dbname (invs race_world ! 0) = ''db1'' \<and> dbname (invs race_world ! 1) = ''db1''
   \<and> running (invs race_world ! 0) \<and> running (invs race_world ! 1)"
  by (simp add: race_world_def race_events_def world_defs)

text \<open>
  C9 as stated fails: after the only invocation for a name has started, stopped
  and released the lock, nobody holds or awaits the name, yet its entry is still
  in the \<open>locks\<close> map.
\<close>

theorem locks_entry_kept_counterexample:
  "run cfg0 solo_events world0 = Some solo_world
   \<and> holder_free solo_world ''db1''
   \<and> waiters solo_world ''db1'' = []
   \<and> locks solo_world 0 ''db1'' = Some 0"
  by (simp add: solo_world_def solo_events_def world_defs)

text \<open>
  C9, amended: the \<open>locks\<close> map of a context has no entry for a name before the
  first request; every request for the name stores the releaser of that request
  under it; from then on the name keeps an entry in every later state.
\<close>

theorem locks_entry_never_removed:
  assumes "run cfg es (createSyncedDB_Exclusive x n w) = Some w'"
  shows "locks world0 x n = None
       \<and> locks (createSyncedDB_Exclusive x n w) x n = Some (length (invs w))
       \<and> locks w' x n \<noteq> None"
proof -
  have a: "locks (createSyncedDB_Exclusive x n w) x n = Some (length (invs w))"
    by (simp add: createSyncedDB_Exclusive_def)
  then have "locks (createSyncedDB_Exclusive x n w) x n \<noteq> None" by simp
  from run_locks_kept [OF assms this] a show ?thesis by (simp add: world0_def)
qed

theorem locks_entry_never_removed_witness:
  "run cfg0 [Grant 0, Resolve 0, Stop 0, Release 0] (createSyncedDB_Exclusive 0 ''db1'' world0) =
     Some solo_world
   \<and> locks solo_world 0 ''db1'' \<noteq> None"
proof -
  have r: "run cfg0 [Grant 0, Resolve 0, Stop 0, Release 0]
      (createSyncedDB_Exclusive 0 ''db1'' world0) = Some solo_world"
    by (simp add: solo_world_def solo_events_def world_defs)
  have t: "locks solo_world 0 ''db1'' \<noteq> None"
    using locks_entry_never_removed [OF r] by blast
  from r t show ?thesis by blast
qed

lemma exec_locks_same:
  "exec cfg e w = Some w' \<Longrightarrow> e \<noteq> Call x n \<Longrightarrow> locks w' x n = locks w x n"
  by (cases e) (auto simp: createSyncedDB_Exclusive_def split: if_splits session.splits)

lemma run_locks_same:
  "run cfg es w = Some w' \<Longrightarrow> Call x n \<notin> set es \<Longrightarrow> locks w' x n = locks w x n"
proof (induction es arbitrary: w)
  case Nil then show ?case by simp
next
  case (Cons e es)
  from Cons.prems(1) obtain w1 where e: "exec cfg e w = Some w1"
    and r: "run cfg es w1 = Some w'"
    by (auto split: option.splits)
  from Cons.prems(2) have ne: "e \<noteq> Call x n" and ns: "Call x n \<notin> set es" by auto
  from Cons.IH [OF r ns] exec_locks_same [OF e ne] show ?case by simp
qed

lemma run_ident:
  assumes "run cfg es w = Some w'" and "k < length (invs w)"
  shows "k < length (invs w') \<and> ctx (invs w' ! k) = ctx (invs w ! k)
       \<and> dbname (invs w' ! k) = dbname (invs w ! k)"
proof (rule run_invariant [OF assms(1), where P = "\<lambda>v. k < length (invs v)
      \<and> ctx (invs v ! k) = ctx (invs w ! k) \<and> dbname (invs v ! k) = dbname (invs w ! k)"])
  show "k < length (invs w) \<and> ctx (invs w ! k) = ctx (invs w ! k)
      \<and> dbname (invs w ! k) = dbname (invs w ! k)"
    using assms(2) by simp
next
  fix e v v'
  assume e: "exec cfg e v = Some v'"
    and p: "k < length (invs v) \<and> ctx (invs v ! k) = ctx (invs w ! k)
      \<and> dbname (invs v ! k) = dbname (invs w ! k)"
  from p have k: "k < length (invs v)" by simp
  from exec_length [OF e] exec_ident [OF e k] p
  show "k < length (invs v') \<and> ctx (invs v' ! k) = ctx (invs w ! k)
      \<and> dbname (invs v' ! k) = dbname (invs w ! k)"
    by simp
qed

text \<open>A releaser stays under the name it was registered for.\<close>

lemma releaser_place_exec:
  assumes "exec cfg e v = Some v'"
    and "k < length (invs v) \<and> (\<forall>x' n'. locks v x' n' = Some k \<longrightarrow> x' = x \<and> n' = n)"
  shows "k < length (invs v') \<and> (\<forall>x' n'. locks v' x' n' = Some k \<longrightarrow> x' = x \<and> n' = n)"
  using assms
  by (cases e) (auto simp: createSyncedDB_Exclusive_def split: if_splits session.splits)

text \<open>A releaser that is in no \<open>locks\<close> map any more is never called.\<close>

lemma orphan_exec:
  assumes "exec cfg e v = Some v'"
    and "k < length (invs v) \<and> (\<forall>x' n'. locks v x' n' \<noteq> Some k) \<and> hold (invs v ! k) = h"
  shows "k < length (invs v') \<and> (\<forall>x' n'. locks v' x' n' \<noteq> Some k) \<and> hold (invs v' ! k) = h"
proof (cases e)
  case (Call x n)
  then show ?thesis using assms
    by (auto simp: createSyncedDB_Exclusive_def nth_append split: if_splits)
next
  case (Grant c)
  then show ?thesis using assms by (auto simp: nth_upd split: if_splits)
next
  case (Resolve c)
  then show ?thesis using assms by (auto simp: nth_upd split: if_splits session.splits)
next
  case (Stop c)
  then show ?thesis using assms by (auto simp: controller_stop_hold split: if_splits)
next
  case (Release c)
  then show ?thesis using assms by (auto simp: nth_upd split: if_splits)
qed

text \<open>
  C10: after two calls with the same name in the same context, the entry of the
  \<open>locks\<close> map is the releaser of the second call. From then on the \<open>hold\<close>
  promise of the first call is never resolved; as long as no further call for
  that name is made in the context, \<open>stop\<close> on either controller resolves the
  \<open>hold\<close> promise of the second call and leaves that of the first as it is.
\<close>

theorem second_call_overwrites_releaser:
  assumes "run cfg es0 world0 = Some w"
    and "run cfg es1 (createSyncedDB_Exclusive x n w) = Some w2"
    and "run cfg es (createSyncedDB_Exclusive x n w2) = Some w'"
  shows "locks (createSyncedDB_Exclusive x n w) x n = Some (length (invs w))
       \<and> locks (createSyncedDB_Exclusive x n w2) x n = Some (length (invs w2))
       \<and> length (invs w) < length (invs w2)
       \<and> hold (invs w' ! length (invs w)) = hold (invs w2 ! length (invs w))
       \<and> (Call x n \<notin> set es \<longrightarrow>
            locks w' x n = Some (length (invs w2))
            \<and> hold (invs (controller_stop (length (invs w)) w') ! length (invs w2))
            \<and> hold (invs (controller_stop (length (invs w2)) w') ! length (invs w2))
            \<and> hold (invs (controller_stop (length (invs w)) w') ! length (invs w)) =
                hold (invs w2 ! length (invs w))
            \<and> hold (invs (controller_stop (length (invs w2)) w') ! length (invs w)) =
                hold (invs w2 ! length (invs w)))"
proof -
  let ?k1 = "length (invs w)" and ?k2 = "length (invs w2)"
  let ?w1 = "createSyncedDB_Exclusive x n w" and ?w3 = "createSyncedDB_Exclusive x n w2"
  have lok: "locks_ok w"
    by (rule run_invariant [OF assms(1), where P = locks_ok])
       (rule locks_ok_world0, rule locks_ok_exec)
  have a: "locks ?w1 x n = Some ?k1" and b: "locks ?w3 x n = Some ?k2"
    by (simp_all add: createSyncedDB_Exclusive_def)
  have len1: "length (invs ?w1) = Suc ?k1" and len3: "length (invs ?w3) = Suc ?k2"
    by (simp_all add: createSyncedDB_Exclusive_def)
  have lt: "?k1 < ?k2" using run_length [OF assms(2)] len1 by simp
  have id1: "ctx (invs ?w1 ! ?k1) = x \<and> dbname (invs ?w1 ! ?k1) = n"
    by (simp add: createSyncedDB_Exclusive_def)
  have id3: "ctx (invs ?w3 ! ?k2) = x \<and> dbname (invs ?w3 ! ?k2) = n"
    by (simp add: createSyncedDB_Exclusive_def)
  have k1w1: "?k1 < length (invs ?w1)" using len1 by simp
  have k1w3: "?k1 < length (invs ?w3)" using len3 lt by simp
  have k2w3: "?k2 < length (invs ?w3)" using len3 by simp
  have id2: "ctx (invs w2 ! ?k1) = x \<and> dbname (invs w2 ! ?k1) = n"
    using run_ident [OF assms(2) k1w1] id1 by simp
  have id31: "ctx (invs ?w3 ! ?k1) = x \<and> dbname (invs ?w3 ! ?k1) = n"
    using id2 lt by (simp add: createSyncedDB_Exclusive_def nth_append)
  have idk1: "?k1 < length (invs w') \<and> ctx (invs w' ! ?k1) = x \<and> dbname (invs w' ! ?k1) = n"
    using run_ident [OF assms(3) k1w3] id31 by simp
  have idk2: "?k2 < length (invs w') \<and> ctx (invs w' ! ?k2) = x \<and> dbname (invs w' ! ?k2) = n"
    using run_ident [OF assms(3) k2w3] id3 by simp
  have place1: "?k1 < length (invs ?w1)
      \<and> (\<forall>x' n'. locks ?w1 x' n' = Some ?k1 \<longrightarrow> x' = x \<and> n' = n)"
    using lok by (auto simp: createSyncedDB_Exclusive_def locks_ok_def split: if_splits)
  have place2: "?k1 < length (invs w2)
      \<and> (\<forall>x' n'. locks w2 x' n' = Some ?k1 \<longrightarrow> x' = x \<and> n' = n)"
    by (rule run_invariant [OF assms(2), where P = "\<lambda>v. ?k1 < length (invs v)
          \<and> (\<forall>x' n'. locks v x' n' = Some ?k1 \<longrightarrow> x' = x \<and> n' = n)"])
       (rule place1, rule releaser_place_exec)
  have h3: "hold (invs ?w3 ! ?k1) = hold (invs w2 ! ?k1)"
    using lt by (simp add: createSyncedDB_Exclusive_def nth_append)
  have orphan3: "?k1 < length (invs ?w3) \<and> (\<forall>x' n'. locks ?w3 x' n' \<noteq> Some ?k1)
      \<and> hold (invs ?w3 ! ?k1) = hold (invs w2 ! ?k1)"
    using place2 lt h3 k1w3 by (auto simp: createSyncedDB_Exclusive_def split: if_splits)
  have orphan: "?k1 < length (invs w') \<and> (\<forall>x' n'. locks w' x' n' \<noteq> Some ?k1)
      \<and> hold (invs w' ! ?k1) = hold (invs w2 ! ?k1)"
    by (rule run_invariant [OF assms(3), where P = "\<lambda>v. ?k1 < length (invs v)
          \<and> (\<forall>x' n'. locks v x' n' \<noteq> Some ?k1) \<and> hold (invs v ! ?k1) = hold (invs w2 ! ?k1)"])
       (rule orphan3, rule orphan_exec)
  have later: "locks w' x n = Some ?k2
      \<and> hold (invs (controller_stop ?k1 w') ! ?k2)
      \<and> hold (invs (controller_stop ?k2 w') ! ?k2)
      \<and> hold (invs (controller_stop ?k1 w') ! ?k1) = hold (invs w2 ! ?k1)
      \<and> hold (invs (controller_stop ?k2 w') ! ?k1) = hold (invs w2 ! ?k1)"
    if nc: "Call x n \<notin> set es"
  proof -
    have l: "locks w' x n = Some ?k2" using run_locks_same [OF assms(3) nc] b by simp
    show ?thesis
      using l idk1 idk2 orphan lt by (simp add: controller_stop_hold)
  qed
  show ?thesis using a b lt orphan later by simp
qed

theorem second_call_overwrites_releaser_witness:
  "run cfg0 [] world0 = Some world0
   \<and> run cfg0 [Grant 0] (createSyncedDB_Exclusive 0 ''db1'' world0) = Some held_world
   \<and> run cfg0 [] (createSyncedDB_Exclusive 0 ''db1'' held_world) =
       Some (createSyncedDB_Exclusive 0 ''db1'' held_world)
   \<and> length (invs world0) = 0 \<and> length (invs held_world) = 1
   \<and> locks (createSyncedDB_Exclusive 0 ''db1'' held_world) 0 ''db1'' = Some 1
   \<and> hold (invs (controller_stop 0 (createSyncedDB_Exclusive 0 ''db1'' held_world)) ! 1)
   \<and> \<not> hold (invs (controller_stop 0 (createSyncedDB_Exclusive 0 ''db1'' held_world)) ! 0)
   \<and> request (invs (controller_stop 0 (createSyncedDB_Exclusive 0 ''db1'' held_world)) ! 0) = Holding"
proof -
  have r0: "run cfg0 [] world0 = Some world0" by simp
  have r1: "run cfg0 [Grant 0] (createSyncedDB_Exclusive 0 ''db1'' world0) = Some held_world"
    by (simp add: held_world_def world_defs)
  have r2: "run cfg0 [] (createSyncedDB_Exclusive 0 ''db1'' held_world) =
       Some (createSyncedDB_Exclusive 0 ''db1'' held_world)" by simp
  have l0: "length (invs world0) = 0" by (simp add: world0_def)
  have l1: "length (invs held_world) = 1" by (simp add: held_world_def world_defs)
  have h0: "\<not> hold (invs held_world ! 0)" by (simp add: held_world_def world_defs)
  have q: "request (invs (controller_stop 0 (createSyncedDB_Exclusive 0 ''db1'' held_world)) ! 0)
      = Holding"
    by (simp add: held_world_def world_defs)
  have nc: "Call 0 ''db1'' \<notin> set []" by simp
  have t: "locks (createSyncedDB_Exclusive 0 ''db1'' held_world) 0 ''db1'' = Some 1
      \<and> hold (invs (controller_stop 0 (createSyncedDB_Exclusive 0 ''db1'' held_world)) ! 1)
      \<and> \<not> hold (invs (controller_stop 0 (createSyncedDB_Exclusive 0 ''db1'' held_world)) ! 0)"
    using second_call_overwrites_releaser [OF r0 r1 r2] nc h0 unfolding l0 l1 by blast
  from r0 r1 r2 l0 l1 t q show ?thesis by blast
qed

end
